theory Spec2Isabelle
  imports Main "HOL-Library.Sublist"
begin

section \<open>Strings\<close>

text \<open>
  A Python \<open>str\<close> is a sequence of Unicode code points, so it is modelled as a list of
  code points; \<open>x in s\<close> on strings is the contiguous-sublist test \<^const>\<open>sublist\<close>.
  ASCII literals of the script are written as HOL strings and converted with \<open>str\<close>; the
  two Hebrew literals of line 49 are given by their code points.
\<close>

type_synonym pystr = "nat list"

definition str :: "string \<Rightarrow> pystr" where
  "str s = map of_char s"

text \<open>
  The first literal of line 49, the Hebrew word for "hours": the code points
  U+05E9 U+05E2 U+05D5 U+05EA.
\<close>

definition HOURS :: pystr where
  "HOURS = [0x5E9, 0x5E2, 0x5D5, 0x5EA]"

text \<open>
  The second literal of line 49, "1 days": the digit 1, a space, and the Hebrew word for
  "days", U+05D9 U+05DE U+05D9 U+05DD.
\<close>

definition ONE_DAYS :: pystr where
  "ONE_DAYS = [0x31, 0x20, 0x5D9, 0x5DE, 0x5D9, 0x5DD]"

text \<open>\<open>sep.join(xs)\<close>.\<close>

fun join :: "pystr \<Rightarrow> pystr list \<Rightarrow> pystr" where
  "join sep [] = []"
| "join sep [x] = x"
| "join sep (x # y # ys) = x @ sep @ join sep (y # ys)"

section \<open>The Python runtime and the libraries\<close>

text \<open>
  \<open>str.lower\<close> and \<open>str.title\<close> are driven by the case tables of the Unicode
  database, and \<open>BeautifulSoup(html, "html.parser")\<close> by the HTML parser; none of them
  is code of the script. They are parameters of the model, and every general theorem
  below holds for all of them.
\<close>

datatype node =
    Tag (name: pystr) (attrs: "(pystr \<times> pystr) list") (contents: "node list")
  | NavigableString pystr
  | Comment pystr

text \<open>
  A \<open>MIMEText\<close> message, as far as the script sets it: the payload and three headers.
  Its serialisation (\<open>as_bytes\<close>, then \<open>base64.urlsafe_b64encode\<close> and \<open>decode\<close>) is
  the work of the libraries, too.
\<close>

record message =
  msg_body :: pystr
  msg_to :: pystr
  msg_from :: pystr
  msg_subject :: pystr

record runtime =
  str_lower :: "pystr \<Rightarrow> pystr"
  str_title :: "pystr \<Rightarrow> pystr"
  html_parser :: "pystr \<Rightarrow> node"
  b64_of_message :: "message \<Rightarrow> pystr"

text \<open>The constants that \<open>compose_message\<close> imports from \<open>secret_keys\<close>.\<close>

record secret_keys =
  FROM_MAIL_ADDR :: pystr
  TARGET_MAIL_ADDR :: pystr

datatype error = StopIteration | IndexError | AttributeError

section \<open>The freshness test of line 49\<close>

definition date_is_today :: "pystr \<Rightarrow> bool" where
  "date_is_today date_text = (sublist HOURS date_text \<or> sublist ONE_DAYS date_text)"

section \<open>The parsed tree (bs4)\<close>

text \<open>
  An element of the tree knows its ancestors (\<open>a.parents\<close> yields them from the parent
  up to the \<open>BeautifulSoup\<close> object itself), so an element is a node together with the
  chain of its ancestors, nearest first.
\<close>

record element =
  self :: node
  parents :: "node list"

text \<open>\<open>tag.descendants\<close>: every node below a tag, in document order.\<close>

fun descendants :: "node list \<Rightarrow> node \<Rightarrow> element list"
  and descendants_list :: "node list \<Rightarrow> node list \<Rightarrow> element list" where
  "descendants anc (Tag n ats cs) = descendants_list (Tag n ats cs # anc) cs"
| "descendants anc (NavigableString s) = []"
| "descendants anc (Comment s) = []"
| "descendants_list anc [] = []"
| "descendants_list anc (c # cs) =
     \<lparr>self = c, parents = anc\<rparr> # descendants anc c @ descendants_list anc cs"

fun is_tag_named :: "pystr \<Rightarrow> node \<Rightarrow> bool" where
  "is_tag_named nm (Tag n ats cs) = (n = nm)"
| "is_tag_named nm (NavigableString s) = False"
| "is_tag_named nm (Comment s) = False"

text \<open>\<open>soup.find_all(nm)\<close>: the descendant tags of that name, in document order.\<close>

definition find_all :: "node \<Rightarrow> pystr \<Rightarrow> element list" where
  "find_all soup nm = filter (\<lambda>e. is_tag_named nm (self e)) (descendants [] soup)"

text \<open>
  \<open>.string\<close>: a string node is its own string; a tag with exactly one child has the
  string of that child; any other tag has none.
\<close>

fun string_of :: "node \<Rightarrow> pystr option" where
  "string_of (Tag n ats [c]) = string_of c"
| "string_of (Tag n ats cs) = None"
| "string_of (NavigableString s) = Some s"
| "string_of (Comment s) = Some s"

text \<open>
  \<open>tag.get(key, default)\<close>, a lookup in the tag's attribute dictionary. The script calls
  it on the results of \<open>find_all\<close> only, which are tags.
\<close>

fun get :: "node \<Rightarrow> pystr \<Rightarrow> pystr \<Rightarrow> pystr" where
  "get (Tag n ats cs) key dflt = (case map_of ats key of None \<Rightarrow> dflt | Some v \<Rightarrow> v)"
| "get (NavigableString s) key dflt = dflt"
| "get (Comment s) key dflt = dflt"

text \<open>\<open>list(x.children)\<close>: only a tag has children; a string node has no such attribute.\<close>

fun children :: "node \<Rightarrow> error + node list" where
  "children (Tag n ats cs) = Inr cs"
| "children (NavigableString s) = Inl AttributeError"
| "children (Comment s) = Inl AttributeError"

text \<open>\<open>xs[i]\<close> for an index that is not negative.\<close>

definition item :: "'a list \<Rightarrow> nat \<Rightarrow> error + 'a" where
  "item xs i = (if i < length xs then Inr (xs ! i) else Inl IndexError)"

text \<open>\<open>next(itertools.islice(it, k, None))\<close>: the element after the first \<open>k\<close>.\<close>

definition next_islice :: "'a list \<Rightarrow> nat \<Rightarrow> error + 'a" where
  "next_islice it k = (case drop k it of [] \<Rightarrow> Inl StopIteration | x # xs \<Rightarrow> Inr x)"

text \<open>\<open>.text\<close>: the strings below a node, concatenated; comments are left out.\<close>

fun text_of :: "node \<Rightarrow> pystr" where
  "text_of (Tag n ats cs) = concat (map text_of cs)"
| "text_of (NavigableString s) = s"
| "text_of (Comment s) = []"

section \<open>The matcher: \<open>search_for_products\<close>\<close>

text \<open>
  A \<open>dict\<close> keeps its keys in insertion order, and \<open>compose_message\<close> reads them in
  that order, so the matches are an association list with one entry for each key.
  \<open>matches.setdefault(p, []).append(v)\<close>:
\<close>

type_synonym matchset = "(pystr \<times> pystr list) list"

fun setdefault_append :: "matchset \<Rightarrow> pystr \<Rightarrow> pystr \<Rightarrow> matchset" where
  "setdefault_append [] p v = [(p, [v])]"
| "setdefault_append ((k, vs) # m) p v =
     (if k = p then (k, vs @ [v]) # m else (k, vs) # setdefault_append m p v)"

text \<open>Lines 43 to 48: the text of the time indicator that belongs to an anchor.\<close>

definition date_text_of :: "element \<Rightarrow> error + pystr" where
  "date_text_of a =
     (case next_islice (parents a) 4 of Inl e \<Rightarrow> Inl e | Inr a_ancestor_element \<Rightarrow>
     (case children a_ancestor_element of Inl e \<Rightarrow> Inl e | Inr cs0 \<Rightarrow>
     (case item cs0 3 of Inl e \<Rightarrow> Inl e | Inr n1 \<Rightarrow>
     (case children n1 of Inl e \<Rightarrow> Inl e | Inr cs1 \<Rightarrow>
     (case item cs1 3 of Inl e \<Rightarrow> Inl e | Inr n2 \<Rightarrow>
     (case children n2 of Inl e \<Rightarrow> Inl e | Inr cs2 \<Rightarrow>
     (case item cs2 1 of Inl e \<Rightarrow> Inl e | Inr n3 \<Rightarrow> Inr (text_of n3))))))))"

text \<open>The condition of line 42, for a keyword that is already in lower case.\<close>

definition passes_checks :: "runtime \<Rightarrow> pystr \<Rightarrow> element \<Rightarrow> bool" where
  "passes_checks L p a =
     (case string_of (self a) of
        None \<Rightarrow> False
      | Some s \<Rightarrow> sublist p (str_lower L s) \<and> get (self a) (str ''href'') [] \<noteq> [])"

text \<open>Lines 42 to 51: the body of the inner loop.\<close>

definition visit :: "runtime \<Rightarrow> pystr \<Rightarrow> matchset \<Rightarrow> element \<Rightarrow> error + matchset" where
  "visit L p matches a =
     (if passes_checks L p a then
        (case date_text_of a of
           Inl e \<Rightarrow> Inl e
         | Inr date_text \<Rightarrow>
             if date_is_today date_text
             then Inr (setdefault_append matches p (get (self a) (str ''href'') []))
             else Inr matches)
      else Inr matches)"

text \<open>Line 41: the loop over the anchors; an exception ends it.\<close>

fun for_a_tags :: "runtime \<Rightarrow> pystr \<Rightarrow> element list \<Rightarrow> matchset \<Rightarrow> error + matchset" where
  "for_a_tags L p [] matches = Inr matches"
| "for_a_tags L p (a # a_tags) matches =
     (case visit L p matches a of
        Inl e \<Rightarrow> Inl e
      | Inr matches' \<Rightarrow> for_a_tags L p a_tags matches')"

text \<open>Line 40: the loop over the keywords.\<close>

fun for_products :: "runtime \<Rightarrow> pystr list \<Rightarrow> element list \<Rightarrow> matchset \<Rightarrow> error + matchset" where
  "for_products L [] a_tags matches = Inr matches"
| "for_products L (p # products) a_tags matches =
     (case for_a_tags L p a_tags matches of
        Inl e \<Rightarrow> Inl e
      | Inr matches' \<Rightarrow> for_products L products a_tags matches')"

text \<open>
  The function: the result is an exception, \<open>None\<close>, or the dictionary of the matches.
\<close>

definition search_for_products :: "runtime \<Rightarrow> pystr \<Rightarrow> pystr list \<Rightarrow> error + matchset option" where
  "search_for_products L html products =
     (let soup = html_parser L html;
          a_tags = find_all soup (str ''a'');
          products = map (str_lower L) products
      in (case for_products L products a_tags [] of
            Inl e \<Rightarrow> Inl e
          | Inr matches \<Rightarrow> Inr (if length matches = 0 then None else Some matches)))"

section \<open>The notifier: \<open>compose_message\<close>\<close>

text \<open>
  Lines 108 to 112: the loop over \<open>products.items()\<close>, which extends \<open>body\<close>. The code
  point \<open>0x22\<close> is the double quote around the keyword.
\<close>

fun for_items :: "matchset \<Rightarrow> pystr \<Rightarrow> pystr" where
  "for_items [] body = body"
| "for_items ((key, links) # items) body =
     for_items items
       ((body @ str ''The product responding to keyword '' @ [0x22] @ key @ [0x22]
              @ str '' has been found in SmartBuy.\<newline>'')
         @ str ''Click here to find out more: '' @ join (str '' , '') links
         @ str ''\<newline>\<newline>'')"

text \<open>Lines 107 to 117: the message before it is serialised.\<close>

definition mime_message :: "runtime \<Rightarrow> secret_keys \<Rightarrow> matchset \<Rightarrow> message" where
  "mime_message L K products =
     (let body = for_items products (str ''Great success!\<newline>\<newline>'')
      in \<lparr>msg_body = body,
          msg_to = TARGET_MAIL_ADDR K,
          msg_from = FROM_MAIL_ADDR K,
          msg_subject = str ''SmartBuy products alert! (''
                        @ str_title L (join (str '', '') (map fst products)) @ str '')''\<rparr>)"

definition compose_message :: "runtime \<Rightarrow> secret_keys \<Rightarrow> matchset \<Rightarrow> (pystr \<times> pystr) list" where
  "compose_message L K products = [(str ''raw'', b64_of_message L (mime_message L K products))]"

section \<open>A runtime and pages for closed examples\<close>

text \<open>
  The case mappings of Python on the letters A to Z and a to z; every other code point is
  taken as caseless and left as it is, which is what Python does with digits, ASCII
  punctuation and Hebrew letters. \<open>title_from\<close> follows \<open>str.title\<close>: a character is put
  in lower case when the one before it is cased, in title case otherwise.
\<close>

definition ascii_lower :: "nat \<Rightarrow> nat" where
  "ascii_lower c = (if 0x41 \<le> c \<and> c \<le> 0x5A then c + 0x20 else c)"

definition ascii_upper :: "nat \<Rightarrow> nat" where
  "ascii_upper c = (if 0x61 \<le> c \<and> c \<le> 0x7A then c - 0x20 else c)"

definition ascii_cased :: "nat \<Rightarrow> bool" where
  "ascii_cased c = ((0x41 \<le> c \<and> c \<le> 0x5A) \<or> (0x61 \<le> c \<and> c \<le> 0x7A))"

fun title_from :: "bool \<Rightarrow> pystr \<Rightarrow> pystr" where
  "title_from previous_is_cased [] = []"
| "title_from previous_is_cased (c # cs) =
     (if previous_is_cased then ascii_lower c else ascii_upper c) # title_from (ascii_cased c) cs"

text \<open>The parser of this runtime answers with a given tree, whatever the markup.\<close>

definition ascii_runtime :: "node \<Rightarrow> runtime" where
  "ascii_runtime soup =
     \<lparr>str_lower = map ascii_lower, str_title = title_from False,
      html_parser = (\<lambda>html. soup), b64_of_message = msg_body\<rparr>"

text \<open>
  A page in the layout the script expects. A row holds the anchor four tags deep in its
  first child, and the time indicator as the second child of the fourth child of its
  fourth child, so the row is the fifth ancestor of the anchor.
\<close>

definition anchor :: "(pystr \<times> pystr) list \<Rightarrow> pystr \<Rightarrow> node" where
  "anchor ats txt = Tag (str ''a'') ats [NavigableString txt]"

definition div_tag :: "node list \<Rightarrow> node" where
  "div_tag cs = Tag (str ''div'') [] cs"

definition gap :: node where
  "gap = NavigableString (str '' '')"

definition row :: "node \<Rightarrow> pystr \<Rightarrow> node" where
  "row a indicator =
     div_tag [div_tag [div_tag [div_tag [div_tag [a]]]], gap, gap,
              div_tag [gap, gap, gap, div_tag [gap, div_tag [NavigableString indicator]]]]"

definition page :: "node list \<Rightarrow> node" where
  "page rows = Tag (str ''[document]'') [] rows"

text \<open>
  The anchor of a row as an element: its chain of ancestors is the four tags around it,
  the row, and whatever is outside the row.
\<close>

definition in_row :: "node \<Rightarrow> pystr \<Rightarrow> node list \<Rightarrow> element" where
  "in_row a indicator outer =
     \<lparr>self = a,
      parents = [div_tag [a], div_tag [div_tag [a]], div_tag [div_tag [div_tag [a]]],
                 div_tag [div_tag [div_tag [div_tag [a]]]], row a indicator] @ outer\<rparr>"

text \<open>The anchors among the descendants of a list of sibling nodes.\<close>

definition a_tags_in :: "node list \<Rightarrow> node list \<Rightarrow> element list" where
  "a_tags_in anc rows = filter (\<lambda>e. is_tag_named (str ''a'') (self e)) (descendants_list anc rows)"

text \<open>
  An anchor whose text is split by markup, \<open><a><b>t1</b>t2</a>\<close>: it has two children,
  so it has no \<open>.string\<close>.
\<close>

definition split_anchor :: "(pystr \<times> pystr) list \<Rightarrow> pystr \<Rightarrow> pystr \<Rightarrow> node" where
  "split_anchor ats t1 t2 =
     Tag (str ''a'') ats [Tag (str ''b'') [] [NavigableString t1], NavigableString t2]"

text \<open>
  The word "days" after a space, so that \<open>str ''2'' @ DAYS\<close> is the indicator text
  "2 days"; an anchor with a link and the text "Widget Pro".
\<close>

definition DAYS :: pystr where
  "DAYS = [0x20, 0x5D9, 0x5DE, 0x5D9, 0x5DD]"

definition widget_a :: node where
  "widget_a = anchor [(str ''href'', str ''http://x/1'')] (str ''Widget Pro'')"

text \<open>
  Three more anchors: one without a link, one whose text is split by markup, a second
  product; and a page with all four, each with a fresh indicator.
\<close>

definition nolink_a :: node where
  "nolink_a = anchor [] (str ''Widget Pro'')"

definition split_a :: node where
  "split_a = split_anchor [(str ''href'', str ''http://x/9'')] (str ''Widget'') (str '' Pro'')"

definition widget2_a :: node where
  "widget2_a = anchor [(str ''href'', str ''http://x/2'')] (str ''WIDGET 2'')"

definition shop :: node where
  "shop = page [row split_a (str ''5 '' @ HOURS), row nolink_a (str ''5 '' @ HOURS),
                row widget_a (str ''5 '' @ HOURS), row widget2_a ONE_DAYS]"

section \<open>Notions the statements are about\<close>

text \<open>The link of an anchor, as lines 42 and 51 read it.\<close>

definition href_of :: "element \<Rightarrow> pystr" where
  "href_of a = get (self a) (str ''href'') []"

text \<open>An anchor is fresh when its time indicator is found and passes the test of line 49.\<close>

definition fresh :: "element \<Rightarrow> bool" where
  "fresh a = (case date_text_of a of Inl e \<Rightarrow> False | Inr date_text \<Rightarrow> date_is_today date_text)"

text \<open>A (keyword, anchor) pair that satisfies both conditions, and the links of a keyword.\<close>

definition matching :: "runtime \<Rightarrow> pystr \<Rightarrow> element \<Rightarrow> bool" where
  "matching L p a = (passes_checks L p a \<and> fresh a)"

definition links :: "runtime \<Rightarrow> pystr \<Rightarrow> element list \<Rightarrow> pystr list" where
  "links L p a_tags = map href_of (filter (matching L p) a_tags)"

text \<open>\<open>matches.get(k, [])\<close>.\<close>

definition lookup :: "matchset \<Rightarrow> pystr \<Rightarrow> pystr list" where
  "lookup m k = (case map_of m k of None \<Rightarrow> [] | Some vs \<Rightarrow> vs)"

text \<open>Line 35: the anchors of the page, in document order.\<close>

definition a_tags_of :: "runtime \<Rightarrow> pystr \<Rightarrow> element list" where
  "a_tags_of L html = find_all (html_parser L html) (str ''a'')"

text \<open>An anchor that has a string and a link that is not empty.\<close>

definition eligible :: "element \<Rightarrow> bool" where
  "eligible a = (string_of (self a) \<noteq> None \<and> href_of a \<noteq> [])"

text \<open>The elements of a list in the order of their first occurrence, each once.\<close>

fun first_occ :: "'a list \<Rightarrow> 'a list" where
  "first_occ [] = []"
| "first_occ (x # xs) = x # filter (\<lambda>y. y \<noteq> x) (first_occ xs)"

text \<open>The two lines that one pass of the loop of \<open>compose_message\<close> adds to the body.\<close>

definition item_text :: "pystr \<times> pystr list \<Rightarrow> pystr" where
  "item_text kv =
     str ''The product responding to keyword '' @ [0x22] @ fst kv @ [0x22]
     @ str '' has been found in SmartBuy.\<newline>''
     @ str ''Click here to find out more: '' @ join (str '' , '') (snd kv)
     @ str ''\<newline>\<newline>''"

text \<open>Two addresses for the closed examples.\<close>

definition no_keys :: secret_keys where
  "no_keys = \<lparr>FROM_MAIL_ADDR = str ''me@x'', TARGET_MAIL_ADDR = str ''you@x''\<rparr>"

text \<open>
  In the words of the specification: an anchor has direct text content when one of its
  children is a text node. This is not what line 42 reads: \<open>.string\<close> follows a chain of
  only children down to a string node, which may be a comment.
\<close>

fun is_text_node :: "node \<Rightarrow> bool" where
  "is_text_node (Tag n ats cs) = False"
| "is_text_node (NavigableString s) = True"
| "is_text_node (Comment s) = False"

fun has_direct_text :: "node \<Rightarrow> bool" where
  "has_direct_text (Tag n ats cs) = list_ex is_text_node cs"
| "has_direct_text (NavigableString s) = False"
| "has_direct_text (Comment s) = False"

text \<open>
  Two anchors without direct text content: \<open><a><b><i>txt</i></b></a>\<close>, whose text
  is nested in markup, and \<open><a><!--txt--></a>\<close>, which holds a comment only.
\<close>

definition nested_anchor :: "(pystr \<times> pystr) list \<Rightarrow> pystr \<Rightarrow> node" where
  "nested_anchor ats txt =
     Tag (str ''a'') ats [Tag (str ''b'') [] [Tag (str ''i'') [] [NavigableString txt]]]"

definition comment_anchor :: "(pystr \<times> pystr) list \<Rightarrow> pystr \<Rightarrow> node" where
  "comment_anchor ats txt = Tag (str ''a'') ats [Comment txt]"

definition nested_a :: node where
  "nested_a = nested_anchor [(str ''href'', str ''http://x/3'')] (str ''Widget Pro'')"

definition comment_a :: node where
  "comment_a = comment_anchor [(str ''href'', str ''http://x/4'')] (str ''widget'')"

subsection \<open>The traversal in the words of the specification\<close>

text \<open>
  The specification describes the way from an anchor to its indicator as steps: up one
  level five times, then the fourth child, its fourth child, and the second child of
  that. Children are counted from 1 here, as the specification counts them.
\<close>

definition parent :: "element \<Rightarrow> element option" where
  "parent a = (case parents a of [] \<Rightarrow> None | q # qs \<Rightarrow> Some \<lparr>self = q, parents = qs\<rparr>)"

fun ancestor :: "nat \<Rightarrow> element \<Rightarrow> element option" where
  "ancestor 0 a = Some a"
| "ancestor (Suc n) a = (case parent a of None \<Rightarrow> None | Some q \<Rightarrow> ancestor n q)"

fun nth_child :: "nat \<Rightarrow> node \<Rightarrow> node option" where
  "nth_child i (Tag n ats cs) = (if 1 \<le> i \<and> i \<le> length cs then Some (cs ! (i - 1)) else None)"
| "nth_child i (NavigableString s) = None"
| "nth_child i (Comment s) = None"

definition indicator_node :: "element \<Rightarrow> node option" where
  "indicator_node a =
     (case ancestor 5 a of None \<Rightarrow> None | Some q \<Rightarrow>
     (case nth_child 4 (self q) of None \<Rightarrow> None | Some n1 \<Rightarrow>
     (case nth_child 4 n1 of None \<Rightarrow> None | Some n2 \<Rightarrow> nth_child 2 n2)))"

section \<open>The dictionary and the two loops\<close>

lemma lookup_setdefault_append:
  "lookup (setdefault_append m p v) k = lookup m k @ (if k = p then [v] else [])"
  by (induction m) (auto simp: lookup_def)

lemma keys_setdefault_append:
  "map fst (setdefault_append m p v) = (if p \<in> fst ` set m then map fst m else map fst m @ [p])"
  by (induction m) (fastforce simp: image_iff)+

lemma nonempty_setdefault_append:
  "list_all (\<lambda>kv. snd kv \<noteq> []) m \<Longrightarrow> list_all (\<lambda>kv. snd kv \<noteq> []) (setdefault_append m p v)"
  by (induction m) auto

lemma visit_Inr:
  "visit L p m a = Inr m' \<Longrightarrow> m' = (if matching L p a then setdefault_append m p (href_of a) else m)"
  by (auto simp: visit_def matching_def fresh_def href_of_def split: if_splits sum.splits)

lemma visit_Inl:
  "visit L p m a = Inl e \<longleftrightarrow> passes_checks L p a \<and> date_text_of a = Inl e"
  by (auto simp: visit_def split: if_splits sum.splits)

lemma visit_cases:
  "visit L p m a =
     (if passes_checks L p a \<and> isl (date_text_of a) then Inl (projl (date_text_of a))
      else Inr (if matching L p a then setdefault_append m p (href_of a) else m))"
  by (auto simp: visit_def matching_def fresh_def href_of_def split: if_splits sum.splits)

lemma for_a_tags_lookup:
  "for_a_tags L p as m = Inr m' \<Longrightarrow>
     lookup m' k = lookup m k @ (if k = p then links L p as else [])"
proof (induction as arbitrary: m)
  case Nil
  then show ?case by (simp add: links_def)
next
  case (Cons a as)
  then obtain m1 where v: "visit L p m a = Inr m1" and r: "for_a_tags L p as m1 = Inr m'"
    by (auto split: sum.splits)
  from visit_Inr [OF v] have "lookup m1 k = lookup m k @ (if k = p \<and> matching L p a then [href_of a] else [])"
    by (simp add: lookup_setdefault_append)
  with Cons.IH [OF r] show ?case
    by (simp add: links_def)
qed

lemma for_a_tags_nonempty:
  "for_a_tags L p as m = Inr m' \<Longrightarrow> list_all (\<lambda>kv. snd kv \<noteq> []) m \<Longrightarrow> list_all (\<lambda>kv. snd kv \<noteq> []) m'"
proof (induction as arbitrary: m)
  case Nil
  then show ?case by simp
next
  case (Cons a as)
  then obtain m1 where v: "visit L p m a = Inr m1" and r: "for_a_tags L p as m1 = Inr m'"
    by (auto split: sum.splits)
  from visit_Inr [OF v] Cons.prems(2) have "list_all (\<lambda>kv. snd kv \<noteq> []) m1"
    by (simp add: nonempty_setdefault_append)
  with Cons.IH [OF r] show ?case by simp
qed

lemma for_a_tags_Inl:
  "(\<exists>e. for_a_tags L p as m = Inl e) \<longleftrightarrow> (\<exists>a \<in> set as. passes_checks L p a \<and> isl (date_text_of a))"
proof (induction as arbitrary: m)
  case Nil
  then show ?case by simp
next
  case (Cons a as)
  show ?case
  proof (cases "passes_checks L p a \<and> isl (date_text_of a)")
    case True
    then show ?thesis by (auto simp: visit_cases)
  next
    case False
    then show ?thesis using Cons.IH by (auto simp: visit_cases)
  qed
qed

lemma for_products_lookup:
  "for_products L ps as m = Inr m' \<Longrightarrow>
     lookup m' k = lookup m k @ concat (replicate (count_list ps k) (links L k as))"
proof (induction ps arbitrary: m)
  case Nil
  then show ?case by simp
next
  case (Cons p ps)
  then obtain m1 where v: "for_a_tags L p as m = Inr m1" and r: "for_products L ps as m1 = Inr m'"
    by (auto split: sum.splits)
  show ?case
    using for_a_tags_lookup [OF v, of k] Cons.IH [OF r] by simp
qed

lemma for_products_nonempty:
  "for_products L ps as m = Inr m' \<Longrightarrow> list_all (\<lambda>kv. snd kv \<noteq> []) m \<Longrightarrow> list_all (\<lambda>kv. snd kv \<noteq> []) m'"
proof (induction ps arbitrary: m)
  case Nil
  then show ?case by simp
next
  case (Cons p ps)
  then obtain m1 where v: "for_a_tags L p as m = Inr m1" and r: "for_products L ps as m1 = Inr m'"
    by (auto split: sum.splits)
  from for_a_tags_nonempty [OF v Cons.prems(2)] Cons.IH [OF r] show ?case by simp
qed

lemma for_products_Inl:
  "(\<exists>e. for_products L ps as m = Inl e) \<longleftrightarrow>
     (\<exists>p \<in> set ps. \<exists>a \<in> set as. passes_checks L p a \<and> isl (date_text_of a))"
proof (induction ps arbitrary: m)
  case Nil
  then show ?case by simp
next
  case (Cons p ps)
  show ?case
  proof (cases "for_a_tags L p as m")
    case (Inl e)
    then have "\<exists>a \<in> set as. passes_checks L p a \<and> isl (date_text_of a)"
      using for_a_tags_Inl [of L p as m] by auto
    with Inl show ?thesis by auto
  next
    case (Inr m1)
    then have "\<not> (\<exists>a \<in> set as. passes_checks L p a \<and> isl (date_text_of a))"
      using for_a_tags_Inl [of L p as m] by auto
    with Inr Cons.IH [of m1] show ?thesis by auto
  qed
qed

lemma search_for_products_unfold:
  "search_for_products L html products =
     (case for_products L (map (str_lower L) products) (a_tags_of L html) [] of
        Inl e \<Rightarrow> Inl e
      | Inr m \<Rightarrow> Inr (if m = [] then None else Some m))"
  by (simp add: search_for_products_def a_tags_of_def Let_def split: sum.splits)

lemma lookup_in_set:
  "(k, vs) \<in> set m \<Longrightarrow> list_all (\<lambda>kv. snd kv \<noteq> []) m \<Longrightarrow> lookup m k \<noteq> []"
  by (induction m) (auto simp: lookup_def)

lemma map_of_lookup:
  "map_of m k = Some vs \<Longrightarrow> lookup m k = vs"
  by (simp add: lookup_def)


lemma distinct_setdefault_append:
  "distinct (map fst m) \<Longrightarrow> distinct (map fst (setdefault_append m p v))"
  by (simp add: keys_setdefault_append)

lemma for_a_tags_distinct:
  "for_a_tags L p as m = Inr m' \<Longrightarrow> distinct (map fst m) \<Longrightarrow> distinct (map fst m')"
proof (induction as arbitrary: m)
  case Nil
  then show ?case by simp
next
  case (Cons a as)
  then obtain m1 where v: "visit L p m a = Inr m1" and r: "for_a_tags L p as m1 = Inr m'"
    by (auto split: sum.splits)
  from visit_Inr [OF v] Cons.prems(2) have "distinct (map fst m1)"
    by (simp add: distinct_setdefault_append)
  with Cons.IH [OF r] show ?case by simp
qed

lemma for_products_distinct:
  "for_products L ps as m = Inr m' \<Longrightarrow> distinct (map fst m) \<Longrightarrow> distinct (map fst m')"
proof (induction ps arbitrary: m)
  case Nil
  then show ?case by simp
next
  case (Cons p ps)
  then obtain m1 where v: "for_a_tags L p as m = Inr m1" and r: "for_products L ps as m1 = Inr m'"
    by (auto split: sum.splits)
  from for_a_tags_distinct [OF v Cons.prems(2)] Cons.IH [OF r] show ?case by simp
qed

lemma lookup_entry:
  "distinct (map fst m) \<Longrightarrow> (k, vs) \<in> set m \<Longrightarrow> lookup m k = vs"
  by (simp add: lookup_def)

lemma concat_replicate_empty:
  "concat (replicate n xs) = [] \<longleftrightarrow> n = 0 \<or> xs = []"
  by (induction n) auto

lemma set_concat_replicate:
  "v \<in> set (concat (replicate n xs)) \<Longrightarrow> v \<in> set xs"
  by (induction n) auto


text \<open>The result of a run that raises nothing, keyword by keyword.\<close>

lemma search_result:
  assumes "search_for_products L html products = Inr r"
  shows "\<exists>m. r = (if m = [] then None else Some m)
    \<and> list_all (\<lambda>kv. snd kv \<noteq> []) m \<and> distinct (map fst m)
    \<and> (\<forall>k. lookup m k =
          concat (replicate (count_list (map (str_lower L) products) k)
                    (links L k (a_tags_of L html))))"
proof -
  from assms obtain m where
    fp: "for_products L (map (str_lower L) products) (a_tags_of L html) [] = Inr m"
    and r: "r = (if m = [] then None else Some m)"
    by (auto simp: search_for_products_unfold split: sum.splits)
  have "list_all (\<lambda>kv. snd kv \<noteq> []) m"
    using for_products_nonempty [OF fp] by simp
  moreover have "distinct (map fst m)"
    using for_products_distinct [OF fp] by simp
  moreover have "\<forall>k. lookup m k =
          concat (replicate (count_list (map (str_lower L) products) k)
                    (links L k (a_tags_of L html)))"
    using for_products_lookup [OF fp] by (simp add: lookup_def)
  ultimately show ?thesis using r by blast
qed

lemma children_not_StopIteration: "children n \<noteq> Inl StopIteration"
  by (cases n) simp_all

lemma first_occ_filter: "first_occ (filter P xs) = filter P (first_occ xs)"
proof (induction xs)
  case Nil
  then show ?case by simp
next
  case (Cons x xs)
  show ?case
  proof (cases "P x")
    case True
    with Cons show ?thesis by (simp add: conj_commute)
  next
    case False
    then have "filter P (filter (\<lambda>y. y \<noteq> x) (first_occ xs)) = filter P (first_occ xs)"
      by (auto intro: filter_cong)
    with False Cons show ?thesis by simp
  qed
qed

lemma for_a_tags_keys:
  "for_a_tags L p as m = Inr m' \<Longrightarrow>
     map fst m' =
       (if p \<in> set (map fst m) \<or> links L p as = [] then map fst m else map fst m @ [p])"
proof (induction as arbitrary: m)
  case Nil
  then show ?case by (simp add: links_def)
next
  case (Cons a as)
  then obtain m1 where v: "visit L p m a = Inr m1" and r: "for_a_tags L p as m1 = Inr m'"
    by (auto split: sum.splits)
  have k1: "map fst m1 =
      (if matching L p a \<and> p \<notin> set (map fst m) then map fst m @ [p] else map fst m)"
    using visit_Inr [OF v] by (simp add: keys_setdefault_append)
  show ?case
    using Cons.IH [OF r] k1 by (auto simp: links_def)
qed

lemma for_products_keys:
  "for_products L ps as m = Inr m' \<Longrightarrow>
     map fst m' =
       map fst m @ first_occ (filter (\<lambda>k. k \<notin> set (map fst m) \<and> links L k as \<noteq> []) ps)"
proof (induction ps arbitrary: m)
  case Nil
  then show ?case by simp
next
  case (Cons p ps)
  then obtain m1 where v: "for_a_tags L p as m = Inr m1" and r: "for_products L ps as m1 = Inr m'"
    by (auto split: sum.splits)
  note k1 = for_a_tags_keys [OF v] and ih = Cons.IH [OF r]
  show ?case
  proof (cases "p \<in> set (map fst m) \<or> links L p as = []")
    case True
    with k1 ih show ?thesis by auto
  next
    case False
    with k1 have k1': "map fst m1 = map fst m @ [p]" by simp
    let ?Q = "\<lambda>k. k \<notin> set (map fst m) \<and> links L k as \<noteq> []"
    have "filter (\<lambda>k. k \<notin> set (map fst m1) \<and> links L k as \<noteq> []) ps =
          filter (\<lambda>k. k \<noteq> p) (filter ?Q ps)"
      unfolding k1' by (auto intro: filter_cong)
    then have "first_occ (filter (\<lambda>k. k \<notin> set (map fst m1) \<and> links L k as \<noteq> []) ps) =
          filter (\<lambda>k. k \<noteq> p) (first_occ (filter ?Q ps))"
      by (simp only: first_occ_filter)
    with ih have "map fst m' = (map fst m @ [p]) @ filter (\<lambda>k. k \<noteq> p) (first_occ (filter ?Q ps))"
      by (simp only: k1')
    moreover from False have "filter ?Q (p # ps) = p # filter ?Q ps"
      by simp
    ultimately show ?thesis
      by (simp only: first_occ.simps append_Cons append_Nil append_assoc)
  qed
qed

lemma count_list_distinct:
  "distinct xs \<Longrightarrow> x \<in> set xs \<Longrightarrow> count_list xs x = 1"
  by (induction xs) auto

lemma alist_by_keys:
  "(\<And>k vs. (k, vs) \<in> set m \<Longrightarrow> vs = f k) \<Longrightarrow> m = map (\<lambda>k. (k, f k)) (map fst m)"
  by (induction m) auto

lemma search_keys:
  assumes "search_for_products L html products = Inr (Some ms)"
  shows "map fst ms =
     first_occ (filter (\<lambda>k. links L k (a_tags_of L html) \<noteq> []) (map (str_lower L) products))"
proof -
  from assms obtain m where
    fp: "for_products L (map (str_lower L) products) (a_tags_of L html) [] = Inr m"
    and r: "Some ms = (if m = [] then None else Some m)"
    by (auto simp: search_for_products_unfold split: sum.splits)
  from r have "ms = m" by (simp split: if_splits)
  with for_products_keys [OF fp] show ?thesis by simp
qed

section \<open>The traversal to the time indicator\<close>

lemma ancestor_Suc:
  "ancestor (Suc n) a =
     (case drop n (parents a) of [] \<Rightarrow> None | q # qs \<Rightarrow> Some \<lparr>self = q, parents = qs\<rparr>)"
proof (induction n arbitrary: a)
  case 0
  then show ?case by (simp add: parent_def split: list.splits)
next
  case (Suc n)
  show ?case
  proof (cases "parents a")
    case Nil
    then show ?thesis by (simp add: parent_def)
  next
    case (Cons q qs)
    then have "ancestor (Suc (Suc n)) a = ancestor (Suc n) \<lparr>self = q, parents = qs\<rparr>"
      by (simp add: parent_def)
    also have "\<dots> = (case drop n qs of [] \<Rightarrow> None | q # qs \<Rightarrow> Some \<lparr>self = q, parents = qs\<rparr>)"
      using Suc.IH [of "\<lparr>self = q, parents = qs\<rparr>"] by simp
    finally show ?thesis using Cons by simp
  qed
qed

lemma nth_child_4:
  "nth_child 4 n =
     (case children n of Inl e \<Rightarrow> None | Inr cs \<Rightarrow>
        (case item cs 3 of Inl e \<Rightarrow> None | Inr c \<Rightarrow> Some c))"
  by (cases n) (auto simp: item_def)

lemma nth_child_2:
  "nth_child 2 n =
     (case children n of Inl e \<Rightarrow> None | Inr cs \<Rightarrow>
        (case item cs 1 of Inl e \<Rightarrow> None | Inr c \<Rightarrow> Some c))"
  by (cases n) (auto simp: item_def)

lemma indicator_node_text:
  "map_option text_of (indicator_node a) =
     (case date_text_of a of Inl e \<Rightarrow> None | Inr date_text \<Rightarrow> Some date_text)"
proof -
  have a5: "\<And>b. ancestor 5 b =
      (case drop 4 (parents b) of [] \<Rightarrow> None | q # qs \<Rightarrow> Some \<lparr>self = q, parents = qs\<rparr>)"
    using ancestor_Suc [of 4] by simp
  show ?thesis
    unfolding indicator_node_def date_text_of_def next_islice_def a5 nth_child_4 nth_child_2
    by (simp split: list.splits sum.splits)
qed

section \<open>Evaluating the examples\<close>

text \<open>
  Facts about the example pages, proved once for every anchor and indicator, so that a
  closed example is evaluated by rewriting with them.
\<close>

lemma str_neq_a [simp]: "str ''div'' \<noteq> str ''a''" "str ''b'' \<noteq> str ''a''"
  by (simp_all add: str_def)

lemma a_tags_of_page:
  "a_tags_of (ascii_runtime (page rows)) html = a_tags_in [page rows] rows"
  by (simp add: a_tags_of_def ascii_runtime_def find_all_def page_def a_tags_in_def)

lemma a_tags_in_Nil: "a_tags_in anc [] = []"
  by (simp add: a_tags_in_def)

lemma a_tags_in_row_anchor:
  "a_tags_in anc (row (anchor ats txt) ind # rows) =
     in_row (anchor ats txt) ind anc # a_tags_in anc rows"
  by (simp add: a_tags_in_def row_def div_tag_def gap_def in_row_def anchor_def)

lemma a_tags_in_row_split_anchor:
  "a_tags_in anc (row (split_anchor ats t1 t2) ind # rows) =
     in_row (split_anchor ats t1 t2) ind anc # a_tags_in anc rows"
  by (simp add: a_tags_in_def row_def div_tag_def gap_def in_row_def split_anchor_def)

lemma a_tags_in_anchor:
  "a_tags_in anc (anchor ats txt # rows) =
     \<lparr>self = anchor ats txt, parents = anc\<rparr> # a_tags_in anc rows"
  by (simp add: a_tags_in_def anchor_def)

lemma date_text_of_in_row: "date_text_of (in_row a ind outer) = Inr ind"
  by (simp add: date_text_of_def in_row_def next_islice_def row_def div_tag_def gap_def item_def)

lemma indicator_node_in_row:
  "indicator_node (in_row a ind outer) = Some (div_tag [NavigableString ind])"
  by (simp add: indicator_node_def in_row_def row_def div_tag_def gap_def parent_def
      eval_nat_numeral)

lemma self_in_row: "self (in_row a ind outer) = a"
  by (simp add: in_row_def)

lemma string_of_anchor: "string_of (anchor ats txt) = Some txt"
  by (simp add: anchor_def)

lemma string_of_split_anchor: "string_of (split_anchor ats t1 t2) = None"
  by (simp add: split_anchor_def)

lemma get_anchor:
  "get (anchor ats txt) key dflt = (case map_of ats key of None \<Rightarrow> dflt | Some v \<Rightarrow> v)"
  "get (split_anchor ats t1 t2) key dflt = (case map_of ats key of None \<Rightarrow> dflt | Some v \<Rightarrow> v)"
  by (simp_all add: anchor_def split_anchor_def)

lemma date_text_of_shallow: "length anc < 5 \<Longrightarrow> date_text_of \<lparr>self = a, parents = anc\<rparr> = Inl StopIteration"
  by (simp add: date_text_of_def next_islice_def)

lemma ascii_runtime_sel:
  "str_lower (ascii_runtime soup) = map ascii_lower"
  "str_title (ascii_runtime soup) = title_from False"
  "html_parser (ascii_runtime soup) html = soup"
  by (simp_all add: ascii_runtime_def)

lemma str_neq_a_more: "str ''i'' \<noteq> str ''a''"
  by (simp add: str_def)

lemma a_tags_in_row_nested_anchor:
  "a_tags_in anc (row (nested_anchor ats txt) ind # rows) =
     in_row (nested_anchor ats txt) ind anc # a_tags_in anc rows"
  by (simp add: a_tags_in_def row_def div_tag_def gap_def in_row_def nested_anchor_def
      str_neq_a str_neq_a_more)

lemma a_tags_in_row_comment_anchor:
  "a_tags_in anc (row (comment_anchor ats txt) ind # rows) =
     in_row (comment_anchor ats txt) ind anc # a_tags_in anc rows"
  by (simp add: a_tags_in_def row_def div_tag_def gap_def in_row_def comment_anchor_def
      str_neq_a)

lemma string_of_nested_anchor: "string_of (nested_anchor ats txt) = Some txt"
  by (simp add: nested_anchor_def)

lemma string_of_comment_anchor: "string_of (comment_anchor ats txt) = Some txt"
  by (simp add: comment_anchor_def)

lemma get_more_anchors:
  "get (nested_anchor ats txt) key dflt = (case map_of ats key of None \<Rightarrow> dflt | Some v \<Rightarrow> v)"
  "get (comment_anchor ats txt) key dflt = (case map_of ats key of None \<Rightarrow> dflt | Some v \<Rightarrow> v)"
  by (simp_all add: nested_anchor_def comment_anchor_def)

lemma no_direct_text:
  "\<not> has_direct_text (nested_anchor ats txt)" "\<not> has_direct_text (comment_anchor ats txt)"
  by (simp_all add: nested_anchor_def comment_anchor_def)

lemmas example_simps = ascii_runtime_sel a_tags_of_page a_tags_in_Nil a_tags_in_row_anchor a_tags_in_row_split_anchor
  a_tags_in_anchor date_text_of_in_row self_in_row string_of_anchor string_of_split_anchor get_anchor
  date_text_of_shallow indicator_node_in_row
  search_for_products_unfold visit_def passes_checks_def
  date_is_today_def ascii_lower_def sublist_Cons_right href_of_def
  str_def HOURS_def DAYS_def ONE_DAYS_def widget_a_def
  nolink_a_def split_a_def widget2_a_def shop_def links_def matching_def fresh_def eligible_def
  a_tags_in_row_nested_anchor a_tags_in_row_comment_anchor string_of_nested_anchor
  string_of_comment_anchor get_more_anchors nested_a_def comment_a_def

section \<open>The claims about the traversal\<close>

text \<open>
  Claim C1. For an anchor that passes the checks of line 42, the script finds the time
  indicator by going up five ancestors (it skips four and takes the fifth), then to the
  fourth child, to the fourth child of that, and to the second child of that, whose text
  it reads: the text the script reads is the text of the node the specification's steps
  reach, and the traversal of the script fails exactly when those steps reach no node.
  The decision to record the anchor is taken on the text of that node alone.
\<close>

theorem indicator_traversal:
  "map_option text_of (indicator_node a) =
     (case date_text_of a of Inl e \<Rightarrow> None | Inr date_text \<Rightarrow> Some date_text)
   \<and> (passes_checks L p a \<longrightarrow> indicator_node a = Some n \<longrightarrow>
        visit L p m a =
          Inr (if date_is_today (text_of n) then setdefault_append m p (href_of a) else m))"
proof (intro conjI impI)
  show "map_option text_of (indicator_node a) =
     (case date_text_of a of Inl e \<Rightarrow> None | Inr date_text \<Rightarrow> Some date_text)"
    by (rule indicator_node_text)
next
  assume pc: "passes_checks L p a" and ind: "indicator_node a = Some n"
  from ind indicator_node_text [of a] have "date_text_of a = Inr (text_of n)"
    by (simp split: sum.splits)
  with pc show "visit L p m a =
          Inr (if date_is_today (text_of n) then setdefault_append m p (href_of a) else m)"
    by (simp add: visit_def href_of_def)
qed

theorem indicator_traversal_witness:
  "passes_checks (ascii_runtime (page [])) (str ''widget'')
     (in_row widget_a (str ''5 '' @ HOURS) [page [row widget_a (str ''5 '' @ HOURS)]])
   \<and> indicator_node (in_row widget_a (str ''5 '' @ HOURS) [page [row widget_a (str ''5 '' @ HOURS)]])
       = Some (div_tag [NavigableString (str ''5 '' @ HOURS)])
   \<and> visit (ascii_runtime (page [])) (str ''widget'') []
         (in_row widget_a (str ''5 '' @ HOURS) [page [row widget_a (str ''5 '' @ HOURS)]])
       = Inr [(str ''widget'', [str ''http://x/1''])]"
proof -
  let ?a = "in_row widget_a (str ''5 '' @ HOURS) [page [row widget_a (str ''5 '' @ HOURS)]]"
  let ?n = "div_tag [NavigableString (str ''5 '' @ HOURS)]"
  have h1: "passes_checks (ascii_runtime (page [])) (str ''widget'') ?a"
    by (simp add: example_simps)
  have h2: "indicator_node ?a = Some ?n"
    by (rule indicator_node_in_row)
  have h3: "date_is_today (text_of ?n)"
    by (simp add: div_tag_def date_is_today_def HOURS_def)
  have h4: "setdefault_append [] (str ''widget'') (href_of ?a) = [(str ''widget'', [str ''http://x/1''])]"
    by (simp add: example_simps)
  from indicator_traversal [of ?a "ascii_runtime (page [])" "str ''widget''" ?n "[]"] h1 h2
  have "visit (ascii_runtime (page [])) (str ''widget'') [] ?a =
          Inr (if date_is_today (text_of ?n)
               then setdefault_append [] (str ''widget'') (href_of ?a) else [])"
    by blast
  with h3 h4 have "visit (ascii_runtime (page [])) (str ''widget'') [] ?a
       = Inr [(str ''widget'', [str ''http://x/1''])]"
    by simp
  with h1 h2 show ?thesis by blast
qed

section \<open>The freshness test\<close>

text \<open>
  Claim C10. The test for the one-day marker is a substring test: every indicator text
  that contains "1 days" is fresh, and so are "11 days" and "21 days"; an anchor whose
  indicator reads "11 days" is recorded by the matcher.
\<close>

theorem one_days_substring_is_fresh:
  "(sublist ONE_DAYS t \<longrightarrow> date_is_today t)
   \<and> date_is_today (str ''11'' @ DAYS) \<and> date_is_today (str ''21'' @ DAYS)
   \<and> search_for_products (ascii_runtime (page [row widget_a (str ''11'' @ DAYS)])) html
        [str ''widget''] = Inr (Some [(str ''widget'', [str ''http://x/1''])])"
proof (intro conjI impI)
  show "date_is_today (str ''11'' @ DAYS)" by (simp add: example_simps)
  show "date_is_today (str ''21'' @ DAYS)" by (simp add: example_simps)
  show "search_for_products (ascii_runtime (page [row widget_a (str ''11'' @ DAYS)])) html
        [str ''widget''] = Inr (Some [(str ''widget'', [str ''http://x/1''])])"
    by (simp add: example_simps)
qed (simp add: date_is_today_def)

theorem one_days_substring_is_fresh_witness:
  "sublist ONE_DAYS (str ''21'' @ DAYS) \<and> date_is_today (str ''21'' @ DAYS)"
proof -
  have h: "sublist ONE_DAYS (str ''21'' @ DAYS)"
    by (simp add: example_simps)
  with one_days_substring_is_fresh [of "str ''21'' @ DAYS" "[]"] show ?thesis
    by blast
qed

text \<open>
  Claim C2. The freshness test accepts a text exactly when it contains the hours marker
  or the marker "1 days": "5 hours" and "1 days" are fresh, "2 days" is not. An anchor
  that passes the checks of line 42 and whose indicator is not fresh leaves the matches
  as they are, and a page whose only anchor has the indicator "3 days" gives \<open>None\<close>.
\<close>

theorem freshness_test:
  "(date_is_today t \<longleftrightarrow> sublist HOURS t \<or> sublist ONE_DAYS t)
   \<and> date_is_today (str ''5 '' @ HOURS)
   \<and> date_is_today (str ''1'' @ DAYS)
   \<and> \<not> date_is_today (str ''2'' @ DAYS)
   \<and> (passes_checks L p a \<longrightarrow> date_text_of a = Inr d \<longrightarrow> \<not> date_is_today d \<longrightarrow>
        visit L p m a = Inr m)
   \<and> search_for_products (ascii_runtime (page [row widget_a (str ''3'' @ DAYS)])) html
        [str ''widget''] = Inr None"
proof (intro conjI impI)
  show "date_is_today t \<longleftrightarrow> sublist HOURS t \<or> sublist ONE_DAYS t"
    by (simp add: date_is_today_def)
  show "date_is_today (str ''5 '' @ HOURS)" by (simp add: example_simps)
  show "date_is_today (str ''1'' @ DAYS)" by (simp add: example_simps)
  show "\<not> date_is_today (str ''2'' @ DAYS)" by (simp add: example_simps)
  show "visit L p m a = Inr m"
    if "passes_checks L p a" "date_text_of a = Inr d" "\<not> date_is_today d"
    using that by (simp add: visit_def)
  show "search_for_products (ascii_runtime (page [row widget_a (str ''3'' @ DAYS)])) html
        [str ''widget''] = Inr None"
    by (simp add: example_simps)
qed

theorem freshness_test_witness:
  "passes_checks (ascii_runtime (page [])) (str ''widget'') (in_row widget_a (str ''3'' @ DAYS) [])
   \<and> date_text_of (in_row widget_a (str ''3'' @ DAYS) []) = Inr (str ''3'' @ DAYS)
   \<and> \<not> date_is_today (str ''3'' @ DAYS)
   \<and> visit (ascii_runtime (page [])) (str ''widget'') [] (in_row widget_a (str ''3'' @ DAYS) [])
       = Inr []"
proof -
  have h1: "passes_checks (ascii_runtime (page [])) (str ''widget'') (in_row widget_a (str ''3'' @ DAYS) [])"
    by (simp add: example_simps)
  have h2: "date_text_of (in_row widget_a (str ''3'' @ DAYS) []) = Inr (str ''3'' @ DAYS)"
    by (rule date_text_of_in_row)
  have h3: "\<not> date_is_today (str ''3'' @ DAYS)"
    by (simp add: example_simps)
  from freshness_test [of _ "ascii_runtime (page [])" "str ''widget''"
      "in_row widget_a (str ''3'' @ DAYS) []" "str ''3'' @ DAYS" "[]"] h1 h2 h3
  have "visit (ascii_runtime (page [])) (str ''widget'') [] (in_row widget_a (str ''3'' @ DAYS) [])
       = Inr []"
    by blast
  with h1 h2 h3 show ?thesis by blast
qed


section \<open>The checks of line 42\<close>



text \<open>
  Claim C4, as the code has it. An anchor whose \<open>.string\<close> is \<open>None\<close>, or whose link is
  missing or empty, never takes part in a match group: visiting it leaves the matches as
  they are whatever the keyword and the indicator, the loops give the same outcome when
  such anchors are removed from the page, and every link of a result is the link of an
  anchor that has a string and a link and matches the keyword of its group.
\<close>

theorem ineligible_anchor_never_included:
  "(\<not> eligible a \<longrightarrow> visit L p m a = Inr m)
   \<and> for_products L ps as m = for_products L ps (filter eligible as) m
   \<and> (search_for_products L html products = Inr (Some ms) \<longrightarrow> (k, vs) \<in> set ms \<longrightarrow>
        v \<in> set vs \<longrightarrow>
        (\<exists>b \<in> set (a_tags_of L html). eligible b \<and> matching L k b \<and> v = href_of b))"
proof (intro conjI impI)
  have skip: "visit L p m a = Inr m" if "\<not> eligible a" for p m a
    using that by (auto simp: visit_def passes_checks_def eligible_def href_of_def split: option.splits)
  show "visit L p m a = Inr m" if "\<not> eligible a"
    using that by (rule skip)
  have inner: "for_a_tags L p as m = for_a_tags L p (filter eligible as) m" for p m
    by (induction as arbitrary: m) (auto simp: skip split: sum.splits)
  show "for_products L ps as m = for_products L ps (filter eligible as) m"
    by (induction ps arbitrary: m) (auto simp: inner split: sum.splits)
next
  assume run: "search_for_products L html products = Inr (Some ms)"
    and kv: "(k, vs) \<in> set ms" and v: "v \<in> set vs"
  from run obtain m0 where r: "Some ms = (if m0 = [] then None else Some m0)"
    and di: "distinct (map fst m0)"
    and lk: "\<And>k. lookup m0 k =
        concat (replicate (count_list (map (str_lower L) products) k) (links L k (a_tags_of L html)))"
    using search_result [OF run] by blast
  from r have "ms = m0" by (simp split: if_splits)
  with kv di have "lookup m0 k = vs" by (simp add: lookup_entry)
  with v lk have "v \<in> set (links L k (a_tags_of L html))"
    by (auto dest: set_concat_replicate)
  then obtain b where b: "b \<in> set (a_tags_of L html)" "matching L k b" "v = href_of b"
    by (auto simp: links_def)
  then have "eligible b"
    by (auto simp: matching_def passes_checks_def eligible_def href_of_def split: option.splits)
  with b show "\<exists>b \<in> set (a_tags_of L html). eligible b \<and> matching L k b \<and> v = href_of b"
    by blast
qed

theorem ineligible_anchor_never_included_witness:
  "\<not> eligible (in_row split_a (str ''5 '' @ HOURS) [shop])
   \<and> visit (ascii_runtime shop) (str ''widget'') [] (in_row split_a (str ''5 '' @ HOURS) [shop]) = Inr []
   \<and> \<not> eligible (in_row nolink_a (str ''5 '' @ HOURS) [shop])
   \<and> visit (ascii_runtime shop) (str ''widget'') [] (in_row nolink_a (str ''5 '' @ HOURS) [shop]) = Inr []
   \<and> search_for_products (ascii_runtime shop) [] [str ''widget'']
       = Inr (Some [(str ''widget'', [str ''http://x/1'', str ''http://x/2''])])
   \<and> (\<exists>b \<in> set (a_tags_of (ascii_runtime shop) []).
         eligible b \<and> matching (ascii_runtime shop) (str ''widget'') b \<and> str ''http://x/2'' = href_of b)"
proof -
  let ?R = "ascii_runtime shop"
  have e1: "\<not> eligible (in_row split_a (str ''5 '' @ HOURS) [shop])"
    by (simp add: example_simps)
  have e2: "\<not> eligible (in_row nolink_a (str ''5 '' @ HOURS) [shop])"
    by (simp add: example_simps)
  have run: "search_for_products ?R [] [str ''widget'']
       = Inr (Some [(str ''widget'', [str ''http://x/1'', str ''http://x/2''])])"
    by (simp add: example_simps)
  note claim = ineligible_anchor_never_included
  from claim [of "in_row split_a (str ''5 '' @ HOURS) [shop]" ?R "str ''widget''" "[]"] e1
  have v1: "visit ?R (str ''widget'') [] (in_row split_a (str ''5 '' @ HOURS) [shop]) = Inr []"
    by blast
  from claim [of "in_row nolink_a (str ''5 '' @ HOURS) [shop]" ?R "str ''widget''" "[]"] e2
  have v2: "visit ?R (str ''widget'') [] (in_row nolink_a (str ''5 '' @ HOURS) [shop]) = Inr []"
    by blast
  from claim [of _ ?R _ _ _ _ "[]" "[str ''widget'']"
      "[(str ''widget'', [str ''http://x/1'', str ''http://x/2''])]"
      "str ''widget''" "[str ''http://x/1'', str ''http://x/2'']" "str ''http://x/2''"] run
  have "\<exists>b \<in> set (a_tags_of ?R []).
         eligible b \<and> matching ?R (str ''widget'') b \<and> str ''http://x/2'' = href_of b"
    by simp
  with e1 e2 v1 v2 run show ?thesis by blast
qed


text \<open>
  Claim C4 as it is stated fails for anchors without direct text content: line 42 reads
  \<open>.string\<close>, which a tag with one child takes from that child. An anchor whose text is
  nested in markup and an anchor that holds a comment only have no text node among their
  children, and each is returned under the keyword "widget".
\<close>

theorem anchor_without_direct_text_included:
  "\<not> has_direct_text nested_a
   \<and> search_for_products (ascii_runtime (page [row nested_a (str ''5 '' @ HOURS)])) []
         [str ''widget'']
       = Inr (Some [(str ''widget'', [str ''http://x/3''])])
   \<and> \<not> has_direct_text comment_a
   \<and> search_for_products (ascii_runtime (page [row comment_a (str ''5 '' @ HOURS)])) []
         [str ''widget'']
       = Inr (Some [(str ''widget'', [str ''http://x/4''])])"
proof (intro conjI)
  show "\<not> has_direct_text nested_a" "\<not> has_direct_text comment_a"
    by (simp_all add: nested_a_def comment_a_def no_direct_text)
  show "search_for_products (ascii_runtime (page [row nested_a (str ''5 '' @ HOURS)])) []
         [str ''widget'']
       = Inr (Some [(str ''widget'', [str ''http://x/3''])])"
    by (simp add: example_simps)
  show "search_for_products (ascii_runtime (page [row comment_a (str ''5 '' @ HOURS)])) []
         [str ''widget'']
       = Inr (Some [(str ''widget'', [str ''http://x/4''])])"
    by (simp add: example_simps)
qed

section \<open>The result of a run\<close>




text \<open>
  Claim C6. A run raises exactly when, for some keyword, some anchor passes the checks of
  line 42 and the traversal from it fails; the exception is then the whole outcome, with
  no matches returned. The traversal raises \<open>StopIteration\<close> exactly when the anchor has
  fewer than five ancestors, \<open>IndexError\<close> when the fifth ancestor has three children,
  and \<open>AttributeError\<close> when the fourth child of the fifth ancestor is a string. A page
  whose anchor is a child of the document raises \<open>StopIteration\<close>.
\<close>

theorem traversal_failure_is_fatal:
  "((\<exists>e. search_for_products L html products = Inl e) \<longleftrightarrow>
      (\<exists>p \<in> set (map (str_lower L) products). \<exists>a \<in> set (a_tags_of L html).
          passes_checks L p a \<and> isl (date_text_of a)))
   \<and> (date_text_of a = Inl StopIteration \<longleftrightarrow> length (parents a) < 5)
   \<and> date_text_of \<lparr>self = x, parents = [q1, q2, q3, q4, Tag n ats [c1, c2, c3]] @ outer\<rparr>
       = Inl IndexError
   \<and> date_text_of \<lparr>self = x, parents = [q1, q2, q3, q4, Tag n ats [c1, c2, c3, NavigableString s]] @ outer\<rparr>
       = Inl AttributeError
   \<and> search_for_products (ascii_runtime (page [widget_a])) html' [str ''widget'']
       = Inl StopIteration"
proof (intro conjI)
  have "(\<exists>e. search_for_products L html products = Inl e) \<longleftrightarrow>
        (\<exists>e. for_products L (map (str_lower L) products) (a_tags_of L html) [] = Inl e)"
    by (auto simp: search_for_products_unfold split: sum.splits)
  then show "(\<exists>e. search_for_products L html products = Inl e) \<longleftrightarrow>
      (\<exists>p \<in> set (map (str_lower L) products). \<exists>a \<in> set (a_tags_of L html).
          passes_checks L p a \<and> isl (date_text_of a))"
    by (simp only: for_products_Inl)
  show "date_text_of a = Inl StopIteration \<longleftrightarrow> length (parents a) < 5"
    by (auto simp: date_text_of_def next_islice_def item_def children_not_StopIteration
        split: list.splits sum.splits if_splits)
  show "date_text_of \<lparr>self = x, parents = [q1, q2, q3, q4, Tag n ats [c1, c2, c3]] @ outer\<rparr>
       = Inl IndexError"
    by (simp add: date_text_of_def next_islice_def item_def)
  show "date_text_of \<lparr>self = x, parents = [q1, q2, q3, q4, Tag n ats [c1, c2, c3, NavigableString s]] @ outer\<rparr>
       = Inl AttributeError"
    by (simp add: date_text_of_def next_islice_def item_def)
  show "search_for_products (ascii_runtime (page [widget_a])) html' [str ''widget'']
       = Inl StopIteration"
    by (simp add: example_simps)
qed

text \<open>
  Claim C7, as the code has it. The loops run keyword by keyword and, for each keyword,
  over the anchors in document order. So the dictionary of a run that returns has the
  lower-case keywords that have matches as its keys, in the order of their first
  occurrence in the keyword list, and the list stored under a keyword is the links of its
  matching fresh anchors in document order, once for every occurrence of that keyword in
  the lower-case keyword list. When the lower-case keywords are distinct, the list under
  a keyword is exactly the links of its matching fresh anchors in document order.
\<close>

theorem links_grouped_in_document_order:
  assumes "search_for_products L html products = Inr (Some ms)"
  shows "ms = map (\<lambda>k. (k, concat (replicate (count_list (map (str_lower L) products) k)
                                     (links L k (a_tags_of L html)))))
                (first_occ (filter (\<lambda>k. links L k (a_tags_of L html) \<noteq> [])
                                   (map (str_lower L) products)))
    \<and> (distinct (map (str_lower L) products) \<longrightarrow>
         (\<forall>k vs. (k, vs) \<in> set ms \<longrightarrow> vs = links L k (a_tags_of L html)))"
proof -
  let ?ps = "map (str_lower L) products" and ?as = "a_tags_of L html"
  let ?f = "\<lambda>k. concat (replicate (count_list ?ps k) (links L k ?as))"
  from search_result [OF assms] obtain m0 where r: "Some ms = (if m0 = [] then None else Some m0)"
    and ne: "list_all (\<lambda>kv. snd kv \<noteq> []) m0"
    and di: "distinct (map fst m0)" and lk: "\<And>k. lookup m0 k = ?f k"
    by blast
  from r have ms: "ms = m0" by (simp split: if_splits)
  have entry: "vs = ?f k" if "(k, vs) \<in> set ms" for k vs
    using that ms di lk [of k] by (simp add: lookup_entry)
  have "ms = map (\<lambda>k. (k, ?f k)) (map fst ms)"
    by (rule alist_by_keys) (rule entry)
  then have c1: "ms = map (\<lambda>k. (k, ?f k)) (first_occ (filter (\<lambda>k. links L k ?as \<noteq> []) ?ps))"
    unfolding search_keys [OF assms] .
  have c2: "vs = links L k ?as" if "distinct ?ps" and "(k, vs) \<in> set ms" for k vs
  proof -
    from that(2) ms ne have "vs \<noteq> []" by (auto simp: list_all_iff)
    with entry [OF that(2)] have "k \<in> set ?ps"
      by (auto simp: concat_replicate_empty count_list_0_iff)
    with that(1) have "count_list ?ps k = 1"
      by (rule count_list_distinct)
    with entry [OF that(2)] show ?thesis by simp
  qed
  from c1 c2 show ?thesis by blast
qed


theorem links_grouped_in_document_order_witness:
  "search_for_products (ascii_runtime shop) [] [str ''2'', str ''Widget'']
     = Inr (Some [(str ''2'', [str ''http://x/2'']),
                  (str ''widget'', [str ''http://x/1'', str ''http://x/2''])])
   \<and> distinct (map (str_lower (ascii_runtime shop)) [str ''2'', str ''Widget''])
   \<and> links (ascii_runtime shop) (str ''widget'') (a_tags_of (ascii_runtime shop) [])
     = [str ''http://x/1'', str ''http://x/2'']"
proof -
  let ?R = "ascii_runtime shop"
  have run: "search_for_products ?R [] [str ''2'', str ''Widget'']
     = Inr (Some [(str ''2'', [str ''http://x/2'']),
                  (str ''widget'', [str ''http://x/1'', str ''http://x/2''])])"
    by (simp add: example_simps)
  have di: "distinct (map (str_lower ?R) [str ''2'', str ''Widget''])"
    by (simp add: example_simps)
  from links_grouped_in_document_order [OF run] di
  have "[str ''http://x/1'', str ''http://x/2''] = links ?R (str ''widget'') (a_tags_of ?R [])"
    by simp
  with run di show ?thesis by simp
qed


text \<open>
  Claim C7 as it is stated fails when a keyword occurs twice after lowering: for the
  keywords "widget" and "Widget" and a page with one matching fresh anchor, the list
  under "widget" holds the link twice, while the anchor has the one link.
\<close>

theorem links_repeat_for_repeated_keyword:
  "search_for_products (ascii_runtime (page [row widget_a (str ''5 '' @ HOURS)])) []
       [str ''widget'', str ''Widget'']
     = Inr (Some [(str ''widget'', [str ''http://x/1'', str ''http://x/1''])])
   \<and> links (ascii_runtime (page [row widget_a (str ''5 '' @ HOURS)])) (str ''widget'')
         (a_tags_of (ascii_runtime (page [row widget_a (str ''5 '' @ HOURS)])) [])
     = [str ''http://x/1'']"
  by (simp add: example_simps)


section \<open>The message\<close>

lemma for_items_eq: "for_items items body = body @ concat (map item_text items)"
  by (induction items arbitrary: body) (auto simp: item_text_def)

text \<open>
  Claim C8, as the code has it. The subject of the message is the text
  "SmartBuy products alert! (", the title-cased form of the keys joined by ", ", and ")";
  the body is the greeting followed, for each key in the order of the dictionary, by the
  line naming the key and the line listing its links joined by " , "; the addresses are
  the two constants; and the function returns the serialised message under "raw".
\<close>

theorem message_of_matches:
  "msg_subject (mime_message L K products) =
     str ''SmartBuy products alert! ('' @ str_title L (join (str '', '') (map fst products))
     @ str '')''
   \<and> msg_body (mime_message L K products) =
       str ''Great success!\<newline>\<newline>'' @ concat (map item_text products)
   \<and> msg_to (mime_message L K products) = TARGET_MAIL_ADDR K
   \<and> msg_from (mime_message L K products) = FROM_MAIL_ADDR K
   \<and> compose_message L K products =
       [(str ''raw'', b64_of_message L (mime_message L K products))]"
  by (simp add: mime_message_def compose_message_def for_items_eq Let_def)


text \<open>
  Claim C8 as it is stated fails on the prefix of the subject: for the matches of "tv",
  the subject is "SmartBuy products alert! (Tv)", not "Alert! (Tv)".
\<close>

theorem subject_is_not_plain_alert:
  "msg_subject (mime_message (ascii_runtime (page [])) no_keys [(str ''tv'', [str ''http://a''])])
     = str ''SmartBuy products alert! (Tv)''
   \<and> msg_subject (mime_message (ascii_runtime (page [])) no_keys [(str ''tv'', [str ''http://a''])])
     \<noteq> str ''Alert! (Tv)''"
  by (simp add: mime_message_def ascii_runtime_sel Let_def str_def ascii_upper_def ascii_lower_def
      ascii_cased_def)

lemma tv_fridge_subject:
  "msg_subject (mime_message (ascii_runtime soup) K
      [(str ''tv'', [str ''http://a'']), (str ''fridge'', [str ''http://b''])])
   = str ''SmartBuy products alert! (Tv, Fridge)''"
  by (simp add: mime_message_def ascii_runtime_sel Let_def str_def ascii_upper_def ascii_lower_def
      ascii_cased_def)

lemma tv_fridge_body:
  "msg_body (mime_message (ascii_runtime soup) K
      [(str ''tv'', [str ''http://a'']), (str ''fridge'', [str ''http://b''])])
   = str ''Great success!\<newline>\<newline>''
     @ (str ''The product responding to keyword '' @ [0x22] @ str ''tv'' @ [0x22]
        @ str '' has been found in SmartBuy.\<newline>'' @ str ''Click here to find out more: '')
     @ str ''http://a''
     @ (str ''\<newline>\<newline>'' @ str ''The product responding to keyword '' @ [0x22] @ str ''fridge'' @ [0x22]
        @ str '' has been found in SmartBuy.\<newline>'' @ str ''Click here to find out more: '')
     @ str ''http://b'' @ str ''\<newline>\<newline>''"
  by (simp add: mime_message_def Let_def)

text \<open>
  Claim C9. The message composed from the matches of "tv" with the link "http://a" and of
  "fridge" with the link "http://b" has a subject that contains "Tv" and "Fridge" (it is
  "SmartBuy products alert! (Tv, Fridge)") and a body that contains both links.
\<close>

theorem tv_fridge_message:
  "sublist (str ''Tv'') (msg_subject (mime_message (ascii_runtime soup) K
      [(str ''tv'', [str ''http://a'']), (str ''fridge'', [str ''http://b''])]))
   \<and> sublist (str ''Fridge'') (msg_subject (mime_message (ascii_runtime soup) K
      [(str ''tv'', [str ''http://a'']), (str ''fridge'', [str ''http://b''])]))
   \<and> sublist (str ''http://a'') (msg_body (mime_message (ascii_runtime soup) K
      [(str ''tv'', [str ''http://a'']), (str ''fridge'', [str ''http://b''])]))
   \<and> sublist (str ''http://b'') (msg_body (mime_message (ascii_runtime soup) K
      [(str ''tv'', [str ''http://a'']), (str ''fridge'', [str ''http://b''])]))
   \<and> msg_subject (mime_message (ascii_runtime soup) K
      [(str ''tv'', [str ''http://a'']), (str ''fridge'', [str ''http://b''])])
     = str ''SmartBuy products alert! (Tv, Fridge)''"
proof (intro conjI)
  let ?M = "mime_message (ascii_runtime soup) K
      [(str ''tv'', [str ''http://a'']), (str ''fridge'', [str ''http://b''])]"
  show s: "msg_subject ?M = str ''SmartBuy products alert! (Tv, Fridge)''"
    by (rule tv_fridge_subject)
  show "sublist (str ''Tv'') (msg_subject ?M)"
    unfolding s by (simp add: str_def sublist_Cons_right)
  show "sublist (str ''Fridge'') (msg_subject ?M)"
    unfolding s by (simp add: str_def sublist_Cons_right)
  show "sublist (str ''http://a'') (msg_body ?M)"
    unfolding tv_fridge_body by (simp only: sublist_def) (metis append_assoc)
  show "sublist (str ''http://b'') (msg_body ?M)"
    unfolding tv_fridge_body by (simp only: sublist_def) (metis append_assoc)
qed

end
